theory Spec2Isabelle
  imports Main
begin

section \<open>Alphabet and string primitives\<close>

text \<open>
  The simulator works on JavaScript strings. A character is modelled as a \<^typ>\<open>char\<close>
  and a string as a \<^typ>\<open>string\<close>; text is ASCII text, and case mapping is the ASCII
  one. \<open>None\<close> of type \<^typ>\<open>char option\<close> stands for JavaScript's \<open>undefined\<close>, the
  value of a string index that is out of range.
\<close>

text \<open>
  Modelled from the spec: the constant \<open>alphabet\<close> of \<open>enigma.js\<close>, which is not
  among the sources: the 26 uppercase Latin letters in order.
\<close>

definition alphabet :: string where
  "alphabet = ''ABCDEFGHIJKLMNOPQRSTUVWXYZ''"

definition lowercase :: string where
  "lowercase = ''abcdefghijklmnopqrstuvwxyz''"

text \<open>\<open>s.indexOf(c)\<close>: the first index of \<open>c\<close> in \<open>s\<close>, or \<open>-1\<close>.\<close>

fun indexOf :: "string \<Rightarrow> char \<Rightarrow> int" where
  "indexOf [] c = - 1"
| "indexOf (x # xs) c =
     (if x = c then 0
      else (let i = indexOf xs c in if i < 0 then - 1 else i + 1))"

text \<open>\<open>s[i]\<close>: the character at index \<open>i\<close>, or \<open>undefined\<close>.\<close>

definition charAt :: "string \<Rightarrow> int \<Rightarrow> char option" where
  "charAt s i = (if 0 \<le> i \<and> i < int (length s) then Some (s ! nat i) else None)"

text \<open>\<open>s.includes(c)\<close> for a single character \<open>c\<close>.\<close>

definition includes_chr :: "string \<Rightarrow> char \<Rightarrow> bool" where
  "includes_chr s c = (c \<in> set s)"

text \<open>\<open>c.toUpperCase()\<close> on one ASCII character, and on a string.\<close>

definition toUpper :: "char \<Rightarrow> char" where
  "toUpper c = (if c \<in> set lowercase then alphabet ! nat (indexOf lowercase c) else c)"

definition toUpperCase :: "string \<Rightarrow> string" where
  "toUpperCase s = map toUpper s"

section \<open>Plugboard\<close>

text \<open>
  Modelled from the spec: \<open>plugboardSwap\<close> of \<open>enigma.js\<close>, which is not among the
  sources; only its tests are. It scans the pair list; if the letter appears in some pair
  it returns the partner, otherwise the letter unchanged.
\<close>

fun plugboardSwap :: "char \<Rightarrow> (char \<times> char) list \<Rightarrow> char" where
  "plugboardSwap c [] = c"
| "plugboardSwap c ((a, b) # pairs) =
     (if c = a then b else if c = b then a else plugboardSwap c pairs)"

text \<open>
  The plugboard pairs of a valid configuration are disjoint: no letter appears in more
  than one pair.
\<close>

fun disjoint_pairs :: "(char \<times> char) list \<Rightarrow> bool" where
  "disjoint_pairs [] = True"
| "disjoint_pairs ((a, b) # pairs) =
     (list_all (\<lambda>(x, y). a \<noteq> x \<and> a \<noteq> y \<and> b \<noteq> x \<and> b \<noteq> y) pairs
      \<and> disjoint_pairs pairs)"

text \<open>The pairs are pairs of letters of the alphabet.\<close>

definition letter_pairs :: "(char \<times> char) list \<Rightarrow> bool" where
  "letter_pairs pairs = list_all (\<lambda>(x, y). x \<in> set alphabet \<and> y \<in> set alphabet) pairs"

section \<open>Rotor\<close>

record rotor =
  wiring :: string
  notch :: char
  ringSetting :: int
  position :: int

text \<open>
  Modelled from the spec: the constructor of the class \<open>Rotor\<close> of \<open>enigma.js\<close>. The
  class is not among the sources; its fields and the argument order of the constructor
  are the ones the tests use.
\<close>

definition Rotor :: "string \<Rightarrow> char \<Rightarrow> int \<Rightarrow> int \<Rightarrow> rotor" where
  "Rotor w n rs p = \<lparr>wiring = w, notch = n, ringSetting = rs, position = p\<rparr>"

text \<open>
  Modelled from the spec: \<open>Rotor.step\<close>, not among the sources. It increments
  \<open>position\<close> by 1 modulo 26.
\<close>

definition step :: "rotor \<Rightarrow> rotor" where
  "step r = r\<lparr>position := (position r + 1) mod 26\<rparr>"

text \<open>
  Modelled from the spec: \<open>Rotor.atNotch\<close>, not among the sources. It is true iff
  \<open>position\<close> equals the alphabet index of \<open>notch\<close>.
\<close>

definition atNotch :: "rotor \<Rightarrow> bool" where
  "atNotch r = (position r = indexOf alphabet (notch r))"

text \<open>
  Modelled from the spec: \<open>Rotor.forward\<close>, not among the sources. It adds the offset
  \<open>position - ringSetting\<close> to the alphabet index of the letter, looks the result up
  in \<open>wiring\<close>, and subtracts the same offset from the alphabet index of the wiring's
  output, all modulo 26.
\<close>

definition forward :: "rotor \<Rightarrow> char \<Rightarrow> char option" where
  "forward r c =
     (let off = position r - ringSetting r in
      case charAt (wiring r) ((indexOf alphabet c + off) mod 26) of
        None \<Rightarrow> None
      | Some w \<Rightarrow> charAt alphabet ((indexOf alphabet w - off) mod 26))"

text \<open>
  Modelled from the spec: \<open>Rotor.backward\<close>, not among the sources. It is the inverse
  mapping: it locates the letter, adjusted by the same offset, within \<open>wiring\<close>, and
  returns the plain alphabet letter at that place, adjusted back.
\<close>

definition backward :: "rotor \<Rightarrow> char \<Rightarrow> char option" where
  "backward r c =
     (let off = position r - ringSetting r in
      case charAt alphabet ((indexOf alphabet c + off) mod 26) of
        None \<Rightarrow> None
      | Some a \<Rightarrow> charAt alphabet ((indexOf (wiring r) a - off) mod 26))"

text \<open>A wiring is a permutation of the alphabet.\<close>

definition wf_wiring :: "string \<Rightarrow> bool" where
  "wf_wiring w = (distinct w \<and> set w = set alphabet)"

section \<open>Enigma machine\<close>

record machine =
  rotors :: "rotor list"
  plugboardPairs :: "(char \<times> char) list"

datatype error = ConfigurationError | TypeError

text \<open>
  \<open>stepRotors\<close>, the fixed code of the bug-fix report:
  \<^verbatim>\<open>
  stepRotors() {
    const middleAtNotch = this.rotors[1].atNotch();
    if (this.rotors[2].atNotch()) this.rotors[1].step();
    if (middleAtNotch) {
      this.rotors[0].step();
      this.rotors[1].step();
    }
    this.rotors[2].step();
  }
  \<close>
  Reading \<open>this.rotors[1]\<close> or \<open>this.rotors[2]\<close> of a machine with fewer than three
  rotors gives \<open>undefined\<close>, whose method call throws a \<open>TypeError\<close> before any rotor
  has moved. The rotors are distinct objects; each update of the list is one call of
  \<open>step\<close> on the rotor at that index.
\<close>

definition stepRotors :: "machine \<Rightarrow> error + machine" where
  "stepRotors m =
     (if length (rotors m) < 3 then Inl TypeError
      else
        let rs0 = rotors m;
            middleAtNotch = atNotch (rs0 ! 1);
            rs1 = (if atNotch (rs0 ! 2) then rs0[1 := step (rs0 ! 1)] else rs0);
            rs2 = (if middleAtNotch
                   then (let t = rs1[0 := step (rs1 ! 0)] in t[1 := step (t ! 1)])
                   else rs1);
            rs3 = rs2[2 := step (rs2 ! 2)]
        in Inr (m\<lparr>rotors := rs3\<rparr>))"

text \<open>
  \<open>encryptChar\<close>, the fixed code of the bug-fix report:
  \<^verbatim>\<open>
  encryptChar(c) {
    if (!alphabet.includes(c)) return c;
    this.stepRotors();
    c = plugboardSwap(c, this.plugboardPairs);
    for (let i = this.rotors.length - 1; i >= 0; i--) {
      c = this.rotors[i].forward(c);
    }
    c = REFLECTOR[alphabet.indexOf(c)];
    for (let i = 0; i < this.rotors.length; i++) {
      c = this.rotors[i].backward(c);
    }
    return plugboardSwap(c, this.plugboardPairs);
  }
  \<close>
  The table \<open>REFLECTOR\<close> of \<open>enigma.js\<close> is not among the sources and is a parameter
  here. The downward loop over the rotors is a \<^const>\<open>foldr\<close> (the last rotor first),
  the upward loop a \<^const>\<open>fold\<close>. An \<open>undefined\<close> intermediate value is kept to the
  end: the spec does not say what a rotor does with it. On a well-formed machine with a
  well-formed reflector no lookup is out of range.
\<close>

definition encryptChar :: "string \<Rightarrow> machine \<Rightarrow> char \<Rightarrow> error + (char option \<times> machine)" where
  "encryptChar REFLECTOR m c =
     (if \<not> includes_chr alphabet c then Inr (Some c, m)
      else
        case stepRotors m of
          Inl e \<Rightarrow> Inl e
        | Inr m' \<Rightarrow>
            let c1 = Some (plugboardSwap c (plugboardPairs m'));
                c2 = foldr (\<lambda>r v. Option.bind v (forward r)) (rotors m') c1;
                c3 = Option.bind c2 (\<lambda>x. charAt REFLECTOR (indexOf alphabet x));
                c4 = fold (\<lambda>r v. Option.bind v (backward r)) (rotors m') c3
            in Inr (map_option (\<lambda>x. plugboardSwap x (plugboardPairs m')) c4, m'))"

text \<open>
  Modelled from the spec: the method \<open>process\<close> of \<open>enigma.js\<close>, which is not among
  the sources. It uppercases the input, iterates over the characters in order, applies
  \<open>encryptChar\<close> to each on the progressively stepped machine, and concatenates the
  results. An exception of \<open>encryptChar\<close> ends the call; an \<open>undefined\<close> result
  contributes nothing to the concatenation, as \<open>join\<close> does.
\<close>

fun encryptChars :: "string \<Rightarrow> machine \<Rightarrow> string \<Rightarrow> error + (string \<times> machine)" where
  "encryptChars REFLECTOR m [] = Inr ([], m)"
| "encryptChars REFLECTOR m (c # cs) =
     (case encryptChar REFLECTOR m c of
        Inl e \<Rightarrow> Inl e
      | Inr (v, m') \<Rightarrow>
          (case encryptChars REFLECTOR m' cs of
             Inl e \<Rightarrow> Inl e
           | Inr (out, m'') \<Rightarrow> Inr ((case v of None \<Rightarrow> [] | Some x \<Rightarrow> [x]) @ out, m'')))"

definition process :: "string \<Rightarrow> machine \<Rightarrow> string \<Rightarrow> error + (string \<times> machine)" where
  "process REFLECTOR m text = encryptChars REFLECTOR m (toUpperCase text)"

text \<open>
  Modelled from the spec: the constructor of the class \<open>Enigma\<close> of \<open>enigma.js\<close>, which
  is not among the sources. The catalogue \<open>ROTORS\<close> of wirings and notches is not among
  the sources either and is a parameter. Construction fails with a configuration error on
  fewer than three rotors, on a position or ring setting outside 0 to 25, and on a letter
  that appears in more than one plugboard pair. The spec is silent about a rotor index
  outside the catalogue and about a rotor without a position or ring setting; the model
  refuses both. Otherwise rotor \<open>i\<close> is built from catalogue entry \<open>rotorIDs[i]\<close>,
  \<open>ringSettings[i]\<close> and \<open>rotorPositions[i]\<close>.
\<close>

definition in_range :: "int \<Rightarrow> bool" where
  "in_range n = (0 \<le> n \<and> n \<le> 25)"

definition Enigma ::
  "(string \<times> char) list \<Rightarrow> nat list \<Rightarrow> int list \<Rightarrow> int list \<Rightarrow> (char \<times> char) list
     \<Rightarrow> error + machine" where
  "Enigma ROTORS rotorIDs rotorPositions ringSettings pairs =
     (if length rotorIDs < 3
         \<or> \<not> list_all (\<lambda>k. k < length ROTORS) rotorIDs
         \<or> length rotorPositions < length rotorIDs
         \<or> \<not> list_all in_range rotorPositions
         \<or> length ringSettings < length rotorIDs
         \<or> \<not> list_all in_range ringSettings
         \<or> \<not> disjoint_pairs pairs
      then Inl ConfigurationError
      else Inr \<lparr>rotors =
                  map (\<lambda>i. Rotor (fst (ROTORS ! (rotorIDs ! i))) (snd (ROTORS ! (rotorIDs ! i)))
                              (ringSettings ! i) (rotorPositions ! i))
                      [0..<length rotorIDs],
                plugboardPairs = pairs\<rparr>)"

section \<open>Well-formed tables and machines\<close>

text \<open>
  The reflector is a fixed involutive table over the alphabet that maps no letter to
  itself.
\<close>

definition wf_reflector :: "string \<Rightarrow> bool" where
  "wf_reflector REFLECTOR =
     list_all (\<lambda>c. case charAt REFLECTOR (indexOf alphabet c) of
                      None \<Rightarrow> False
                    | Some d \<Rightarrow> d \<noteq> c \<and> d \<in> set alphabet
                               \<and> charAt REFLECTOR (indexOf alphabet d) = Some c)
              alphabet"

definition wf_catalogue :: "(string \<times> char) list \<Rightarrow> bool" where
  "wf_catalogue ROTORS = list_all (\<lambda>e. wf_wiring (fst e)) ROTORS"

definition wf_machine :: "machine \<Rightarrow> bool" where
  "wf_machine m =
     (3 \<le> length (rotors m)
      \<and> list_all (\<lambda>r. wf_wiring (wiring r)) (rotors m)
      \<and> disjoint_pairs (plugboardPairs m)
      \<and> letter_pairs (plugboardPairs m))"

text \<open>
  Modelled from the spec: the tables of \<open>enigma.js\<close>, which are not among the sources.
  The spec names the historical rotors I, II and III; with the historical reflector B
  they are the concrete instance on which the results below are evaluated. The tests
  agree with them: the wiring of rotor I starts with \<open>E\<close>, and \<open>E\<close> is the notch of
  rotor II.
\<close>

definition ROTORS_I_II_III :: "(string \<times> char) list" where
  "ROTORS_I_II_III =
     [(''EKMFLGDQVZNTOWYHXUSPAIBRCJ'', CHR ''Q''),
      (''AJDKSIRUXBLHWTMCQGZNPYFVOE'', CHR ''E''),
      (''BDFHJLCPRTXVZNYEIWGAKMUSQO'', CHR ''V'')]"

definition REFLECTOR_B :: string where
  "REFLECTOR_B = ''YRUHQSLDPXNGOKMIEBFZCWVJAT''"

section \<open>Auxiliary notions\<close>

text \<open>
  The signal path of \<open>encryptChar\<close> after the rotors have stepped: plugboard, rotors
  from right to left, reflector, rotors from left to right, plugboard.
\<close>

definition signal_path :: "string \<Rightarrow> machine \<Rightarrow> char \<Rightarrow> char option" where
  "signal_path REFLECTOR m c =
     (let c1 = Some (plugboardSwap c (plugboardPairs m));
          c2 = foldr (\<lambda>r v. Option.bind v (forward r)) (rotors m) c1;
          c3 = Option.bind c2 (\<lambda>x. charAt REFLECTOR (indexOf alphabet x));
          c4 = fold (\<lambda>r v. Option.bind v (backward r)) (rotors m) c3
      in map_option (\<lambda>x. plugboardSwap x (plugboardPairs m)) c4)"

text \<open>
  How a character of the ciphertext relates to the character of the text it stands for:
  a letter of the alphabet becomes another letter of the alphabet, any other character
  stays.
\<close>

definition cipher_of :: "char \<Rightarrow> char \<Rightarrow> bool" where
  "cipher_of a b = (if a \<in> set alphabet then b \<in> set alphabet \<and> b \<noteq> a else b = a)"

section \<open>Concrete machines\<close>

text \<open>
  Machines over the historical tables, as the constructor builds them: rotors I, II, III
  at positions 0, 0, 0 without and with a plugboard, the second one after two keystrokes,
  rotors I, II, III at positions 0, 4, 4 (the turnover test of the test suite), and rotors
  I, II, II at positions 0, 4, 4, where the middle and the right rotor both sit at the
  notch \<open>E\<close>.
\<close>

definition catalogue_rotor :: "nat \<Rightarrow> int \<Rightarrow> int \<Rightarrow> rotor" where
  "catalogue_rotor k rs p =
     Rotor (fst (ROTORS_I_II_III ! k)) (snd (ROTORS_I_II_III ! k)) rs p"

definition machine_AAA :: machine where
  "machine_AAA =
     \<lparr>rotors = [catalogue_rotor 0 0 0, catalogue_rotor 1 0 0, catalogue_rotor 2 0 0],
      plugboardPairs = []\<rparr>"

definition machine_plugged :: machine where
  "machine_plugged =
     \<lparr>rotors = [catalogue_rotor 0 0 0, catalogue_rotor 1 0 0, catalogue_rotor 2 0 0],
      plugboardPairs = [(CHR ''A'', CHR ''B''), (CHR ''C'', CHR ''D'')]\<rparr>"

definition machine_notches :: machine where
  "machine_notches =
     \<lparr>rotors = [catalogue_rotor 0 0 0, catalogue_rotor 1 0 4, catalogue_rotor 1 0 4],
      plugboardPairs = []\<rparr>"

definition machine_turnover :: machine where
  "machine_turnover =
     \<lparr>rotors = [catalogue_rotor 0 0 0, catalogue_rotor 1 0 4, catalogue_rotor 2 0 4],
      plugboardPairs = []\<rparr>"

definition machine_plugged_2 :: machine where
  "machine_plugged_2 =
     \<lparr>rotors = [catalogue_rotor 0 0 0, catalogue_rotor 1 0 0, catalogue_rotor 2 0 2],
      plugboardPairs = [(CHR ''A'', CHR ''B''), (CHR ''C'', CHR ''D'')]\<rparr>"

section \<open>Properties of the model\<close>

subsection \<open>Strings and one rotor\<close>

lemma indexOf_notin: "c \<notin> set s \<Longrightarrow> indexOf s c = - 1"
  by (induction s) (auto simp: Let_def)

lemma indexOf_in:
  "c \<in> set s \<Longrightarrow> 0 \<le> indexOf s c \<and> indexOf s c < int (length s) \<and> s ! nat (indexOf s c) = c"
  by (induction s) (auto simp: Let_def nat_add_distrib)

lemma indexOf_nth: "distinct s \<Longrightarrow> i < length s \<Longrightarrow> indexOf s (s ! i) = int i"
proof (induction s arbitrary: i)
  case Nil
  then show ?case by simp
next
  case (Cons x xs)
  show ?case
  proof (cases i)
    case 0
    then show ?thesis by simp
  next
    case (Suc k)
    with Cons.prems have k: "k < length xs" and nx: "xs ! k \<noteq> x" and d: "distinct xs"
      by auto
    from Cons.IH [OF d k] Suc nx show ?thesis
      by (simp add: Let_def)
  qed
qed

lemma charAt_indexOf: "c \<in> set s \<Longrightarrow> charAt s (indexOf s c) = Some c"
  using indexOf_in [of c s] by (simp add: charAt_def)

lemma charAt_SomeD: "charAt s i = Some c \<Longrightarrow> 0 \<le> i \<and> i < int (length s) \<and> c = s ! nat i"
  by (auto simp: charAt_def split: if_splits)

lemma charAt_in_set: "charAt s i = Some c \<Longrightarrow> c \<in> set s"
  by (auto dest!: charAt_SomeD)

lemma indexOf_charAt: "distinct s \<Longrightarrow> charAt s i = Some c \<Longrightarrow> indexOf s c = i"
  using indexOf_nth [of s "nat i"] by (auto dest!: charAt_SomeD)

lemma charAt_in_range: "0 \<le> i \<Longrightarrow> i < int (length s) \<Longrightarrow> \<exists>c. charAt s i = Some c"
  by (simp add: charAt_def)

lemma length_alphabet: "length alphabet = 26"
  by (simp add: alphabet_def)

lemma distinct_alphabet: "distinct alphabet"
  by (simp add: alphabet_def)

lemma wf_wiring_length: "wf_wiring w \<Longrightarrow> length w = 26"
proof -
  assume w: "wf_wiring w"
  then have d: "distinct w" and s: "set w = set alphabet"
    by (simp_all add: wf_wiring_def)
  have "length w = card (set w)"
    using d by (simp add: distinct_card)
  also have "\<dots> = card (set alphabet)"
    by (simp only: s)
  also have "\<dots> = length alphabet"
    using distinct_alphabet by (simp add: distinct_card)
  finally show ?thesis by (simp add: length_alphabet)
qed

lemma alphabet_at: "\<exists>c \<in> set alphabet. charAt alphabet (i mod 26) = Some c \<and> indexOf alphabet c = i mod 26"
proof -
  have "0 \<le> i mod 26" "i mod 26 < int (length alphabet)"
    by (simp_all add: length_alphabet)
  then obtain c where c: "charAt alphabet (i mod 26) = Some c"
    using charAt_in_range by blast
  then show ?thesis
    using charAt_in_set [OF c] indexOf_charAt [OF distinct_alphabet c] by blast
qed

lemma wiring_at:
  assumes "wf_wiring w"
  shows "\<exists>c \<in> set alphabet. charAt w (i mod 26) = Some c \<and> indexOf w c = i mod 26"
proof -
  have "0 \<le> i mod 26" "i mod 26 < int (length w)"
    by (simp_all add: wf_wiring_length [OF assms])
  then obtain c where c: "charAt w (i mod 26) = Some c"
    using charAt_in_range by blast
  moreover from assms have "distinct w" "set w = set alphabet"
    by (simp_all add: wf_wiring_def)
  ultimately show ?thesis
    using charAt_in_set [OF c] indexOf_charAt [of w _ c] by auto
qed

lemma indexOf_alphabet_range:
  "c \<in> set alphabet \<Longrightarrow> 0 \<le> indexOf alphabet c \<and> indexOf alphabet c < 26"
  using indexOf_in [of c alphabet] by (simp add: length_alphabet)

lemma forward_backward_step:
  assumes w: "wf_wiring (wiring r)" and c: "c \<in> set alphabet"
  shows "\<exists>d \<in> set alphabet. forward r c = Some d \<and> backward r d = Some c"
proof -
  define off where "off = position r - ringSetting r"
  define i where "i = indexOf alphabet c"
  have i: "0 \<le> i" "i < 26" and ci: "charAt alphabet i = Some c"
    using indexOf_alphabet_range [OF c] charAt_indexOf [OF c] by (simp_all add: i_def)
  obtain x where x: "x \<in> set alphabet" "charAt (wiring r) ((i + off) mod 26) = Some x"
      "indexOf (wiring r) x = (i + off) mod 26"
    using wiring_at [OF w] by blast
  define k where "k = indexOf alphabet x"
  have k: "0 \<le> k" "k < 26" and xk: "charAt alphabet k = Some x"
    using indexOf_alphabet_range [OF x(1)] charAt_indexOf [OF x(1)] by (simp_all add: k_def)
  obtain d where d: "d \<in> set alphabet" "charAt alphabet ((k - off) mod 26) = Some d"
      "indexOf alphabet d = (k - off) mod 26"
    using alphabet_at by blast
  have f: "forward r c = Some d"
    using x(2) d(2) by (simp add: forward_def off_def i_def k_def)
  have e1: "((k - off) mod 26 + off) mod 26 = k"
    using k by (simp add: mod_add_left_eq)
  have e2: "((i + off) mod 26 - off) mod 26 = i"
    using i by (simp add: mod_diff_left_eq)
  have "backward r d = Some c"
    using d(3) e1 e2 xk x(3) ci by (simp add: backward_def off_def [symmetric])
  with f d(1) show ?thesis by blast
qed

lemma backward_forward_step:
  assumes w: "wf_wiring (wiring r)" and d: "d \<in> set alphabet"
  shows "\<exists>c \<in> set alphabet. backward r d = Some c \<and> forward r c = Some d"
proof -
  define off where "off = position r - ringSetting r"
  define i where "i = indexOf alphabet d"
  have i: "0 \<le> i" "i < 26" and di: "charAt alphabet i = Some d"
    using indexOf_alphabet_range [OF d] charAt_indexOf [OF d] by (simp_all add: i_def)
  obtain a where a: "a \<in> set alphabet" "charAt alphabet ((i + off) mod 26) = Some a"
      "indexOf alphabet a = (i + off) mod 26"
    using alphabet_at by blast
  from w a(1) have aw: "a \<in> set (wiring r)"
    by (simp add: wf_wiring_def)
  define j where "j = indexOf (wiring r) a"
  have j: "0 \<le> j" "j < 26" and aj: "charAt (wiring r) j = Some a"
    using indexOf_in [OF aw] charAt_indexOf [OF aw] wf_wiring_length [OF w]
    by (simp_all add: j_def)
  obtain c where c: "c \<in> set alphabet" "charAt alphabet ((j - off) mod 26) = Some c"
      "indexOf alphabet c = (j - off) mod 26"
    using alphabet_at by blast
  have b: "backward r d = Some c"
    using a(2) c(2) by (simp add: backward_def off_def i_def j_def)
  have e1: "((j - off) mod 26 + off) mod 26 = j"
    using j by (simp add: mod_add_left_eq)
  have e2: "((i + off) mod 26 - off) mod 26 = i"
    using i by (simp add: mod_diff_left_eq)
  have "forward r c = Some d"
    using c(3) e1 e2 aj a(3) di by (simp add: forward_def off_def [symmetric])
  with b c(1) show ?thesis by blast
qed

subsection \<open>Plugboard\<close>

lemma plugboardSwap_cases:
  "plugboardSwap c pairs \<in> insert c (fst ` set pairs \<union> snd ` set pairs)"
proof (induction pairs)
  case Nil
  then show ?case by simp
next
  case (Cons p pairs)
  obtain a b where p: "p = (a, b)" by (cases p)
  show ?case
  proof (cases "c = a \<or> c = b")
    case True
    then show ?thesis using p by auto
  next
    case False
    then have "plugboardSwap c (p # pairs) = plugboardSwap c pairs"
      using p by simp
    with Cons.IH show ?thesis by auto
  qed
qed

lemma plugboardSwap_fresh:
  "list_all (\<lambda>(x, y). c \<noteq> x \<and> c \<noteq> y) pairs \<Longrightarrow> plugboardSwap c pairs = c"
  by (induction pairs) auto

lemma plugboardSwap_avoids:
  assumes "list_all (\<lambda>(x, y). a \<noteq> x \<and> a \<noteq> y \<and> b \<noteq> x \<and> b \<noteq> y) pairs"
    and "c \<noteq> a" and "c \<noteq> b"
  shows "plugboardSwap c pairs \<noteq> a \<and> plugboardSwap c pairs \<noteq> b"
proof -
  from assms(1) have "a \<notin> fst ` set pairs \<union> snd ` set pairs"
    and "b \<notin> fst ` set pairs \<union> snd ` set pairs"
    by (auto simp: list_all_iff)
  with assms(2,3) plugboardSwap_cases [of c pairs] show ?thesis
    by auto
qed

lemma plugboardSwap_involution:
  "disjoint_pairs pairs \<Longrightarrow> plugboardSwap (plugboardSwap c pairs) pairs = c"
proof (induction pairs)
  case Nil
  then show ?case by simp
next
  case (Cons p pairs)
  obtain a b where p: "p = (a, b)" by (cases p)
  from Cons.prems p
  have fresh: "list_all (\<lambda>(x, y). a \<noteq> x \<and> a \<noteq> y \<and> b \<noteq> x \<and> b \<noteq> y) pairs"
    and dis: "disjoint_pairs pairs"
    by simp_all
  show ?case
  proof (cases "c = a \<or> c = b")
    case True
    then show ?thesis using p by auto
  next
    case False
    then have "plugboardSwap c pairs \<noteq> a \<and> plugboardSwap c pairs \<noteq> b"
      using plugboardSwap_avoids [OF fresh] by simp
    with False p Cons.IH [OF dis] show ?thesis by simp
  qed
qed

lemma plugboardSwap_letter:
  assumes "letter_pairs pairs" and "c \<in> set alphabet"
  shows "plugboardSwap c pairs \<in> set alphabet"
proof -
  from assms(1) have "fst ` set pairs \<union> snd ` set pairs \<subseteq> set alphabet"
    by (auto simp: letter_pairs_def list_all_iff)
  with assms(2) plugboardSwap_cases [of c pairs] show ?thesis
    by auto
qed

subsection \<open>The rotor passes\<close>

lemma forward_pass_inverse:
  assumes "list_all (\<lambda>r. wf_wiring (wiring r)) rs" and "c \<in> set alphabet"
  shows "\<exists>d \<in> set alphabet.
           foldr (\<lambda>r v. Option.bind v (forward r)) rs (Some c) = Some d
           \<and> fold (\<lambda>r v. Option.bind v (backward r)) rs (Some d) = Some c"
  using assms
proof (induction rs)
  case Nil
  then show ?case by simp
next
  case (Cons r rs)
  then obtain y where y: "y \<in> set alphabet"
      "foldr (\<lambda>r v. Option.bind v (forward r)) rs (Some c) = Some y"
      "fold (\<lambda>r v. Option.bind v (backward r)) rs (Some y) = Some c"
    by auto
  from Cons.prems have "wf_wiring (wiring r)" by simp
  from forward_backward_step [OF this y(1)]
  obtain d where "d \<in> set alphabet" "forward r y = Some d" "backward r d = Some y"
    by blast
  with y show ?case by auto
qed

lemma backward_pass_inverse:
  assumes "list_all (\<lambda>r. wf_wiring (wiring r)) rs" and "d \<in> set alphabet"
  shows "\<exists>c \<in> set alphabet.
           fold (\<lambda>r v. Option.bind v (backward r)) rs (Some d) = Some c
           \<and> foldr (\<lambda>r v. Option.bind v (forward r)) rs (Some c) = Some d"
  using assms
proof (induction rs arbitrary: d)
  case Nil
  then show ?case by simp
next
  case (Cons r rs)
  from Cons.prems have "wf_wiring (wiring r)" and rs: "list_all (\<lambda>r. wf_wiring (wiring r)) rs"
    by simp_all
  from backward_forward_step [OF this(1) Cons.prems(2)]
  obtain y where y: "y \<in> set alphabet" "backward r d = Some y" "forward r y = Some d"
    by blast
  from Cons.IH [OF rs y(1)] obtain c where "c \<in> set alphabet"
      "fold (\<lambda>r v. Option.bind v (backward r)) rs (Some y) = Some c"
      "foldr (\<lambda>r v. Option.bind v (forward r)) rs (Some c) = Some y"
    by blast
  with y show ?case by auto
qed

subsection \<open>The signal path\<close>

lemma encryptChar_letter:
  "c \<in> set alphabet \<Longrightarrow> stepRotors m = Inr m' \<Longrightarrow>
     encryptChar REFLECTOR m c = Inr (signal_path REFLECTOR m' c, m')"
  by (simp add: encryptChar_def signal_path_def includes_chr_def)

lemma encryptChar_other:
  "c \<notin> set alphabet \<Longrightarrow> encryptChar REFLECTOR m c = Inr (Some c, m)"
  by (simp add: encryptChar_def includes_chr_def)

lemma wf_reflectorD:
  assumes "wf_reflector REFLECTOR" and "x \<in> set alphabet"
  shows "\<exists>y \<in> set alphabet. y \<noteq> x \<and> charAt REFLECTOR (indexOf alphabet x) = Some y
           \<and> charAt REFLECTOR (indexOf alphabet y) = Some x"
proof -
  from assms have
    "case charAt REFLECTOR (indexOf alphabet x) of
       None \<Rightarrow> False
     | Some d \<Rightarrow> d \<noteq> x \<and> d \<in> set alphabet \<and> charAt REFLECTOR (indexOf alphabet d) = Some x"
    unfolding wf_reflector_def list_all_iff by blast
  then show ?thesis
    by (cases "charAt REFLECTOR (indexOf alphabet x)") simp_all
qed

lemma signal_path_reciprocal:
  assumes m: "wf_machine m" and R: "wf_reflector REFLECTOR" and c: "c \<in> set alphabet"
  shows "\<exists>d \<in> set alphabet. d \<noteq> c \<and> signal_path REFLECTOR m c = Some d
           \<and> signal_path REFLECTOR m d = Some c"
proof -
  let ?P = "plugboardPairs m" and ?rs = "rotors m"
  let ?F = "foldr (\<lambda>r v. Option.bind v (forward r)) ?rs"
  let ?B = "fold (\<lambda>r v. Option.bind v (backward r)) ?rs"
  from m have ws: "list_all (\<lambda>r. wf_wiring (wiring r)) ?rs"
    and dis: "disjoint_pairs ?P" and lp: "letter_pairs ?P"
    by (simp_all add: wf_machine_def)
  define p where "p = plugboardSwap c ?P"
  have p: "p \<in> set alphabet" and pc: "plugboardSwap p ?P = c"
    using plugboardSwap_letter [OF lp c] plugboardSwap_involution [OF dis]
    by (simp_all add: p_def)
  obtain x where x: "x \<in> set alphabet" "?F (Some p) = Some x" "?B (Some x) = Some p"
    using forward_pass_inverse [OF ws p] by blast
  obtain y where y: "y \<in> set alphabet" "y \<noteq> x"
      "charAt REFLECTOR (indexOf alphabet x) = Some y"
      "charAt REFLECTOR (indexOf alphabet y) = Some x"
    using wf_reflectorD [OF R x(1)] by blast
  obtain z where z: "z \<in> set alphabet" "?B (Some y) = Some z" "?F (Some z) = Some y"
    using backward_pass_inverse [OF ws y(1)] by blast
  define d where "d = plugboardSwap z ?P"
  have d: "d \<in> set alphabet" and dz: "plugboardSwap d ?P = z"
    using plugboardSwap_letter [OF lp z(1)] plugboardSwap_involution [OF dis]
    by (simp_all add: d_def)
  have "d \<noteq> c"
  proof
    assume "d = c"
    with dz have "z = p" by (simp add: p_def)
    with z(3) x(2) y(2) show False by simp
  qed
  moreover have "signal_path REFLECTOR m c = Some d"
    using x(2) y(3) z(2) by (simp add: signal_path_def p_def [symmetric] d_def)
  moreover have "signal_path REFLECTOR m d = Some c"
    using dz z(3) y(4) x(3) pc by (simp add: signal_path_def)
  ultimately show ?thesis using d by blast
qed

subsection \<open>Stepping\<close>

lemma stepRotors_TypeError: "length (rotors m) < 3 \<Longrightarrow> stepRotors m = Inl TypeError"
  by (simp add: stepRotors_def)

lemma wiring_step [simp]: "wiring (step r) = wiring r"
  by (simp add: step_def)

lemma position_step [simp]: "position (step r) = (position r + 1) mod 26"
  by (simp add: step_def)

lemma stepRotors_total:
  "3 \<le> length (rotors m) \<Longrightarrow> \<exists>m'. stepRotors m = Inr m'"
  by (simp add: stepRotors_def Let_def)

lemma stepRotors_frame:
  assumes "stepRotors m = Inr m'"
  shows "plugboardPairs m' = plugboardPairs m"
    and "length (rotors m') = length (rotors m)"
    and "3 \<le> length (rotors m)"
  using assms
  by (auto simp: stepRotors_def Let_def split: if_splits)

lemma list_all_update:
  "list_all Q rs \<Longrightarrow> Q x \<Longrightarrow> list_all Q (rs[i := x])"
  using set_update_subset_insert [of rs i x] by (auto simp: list_all_iff)

lemma wirings_step:
  assumes "list_all (\<lambda>r. wf_wiring (wiring r)) rs" and "i < length rs"
  shows "list_all (\<lambda>r. wf_wiring (wiring r)) (rs[k := step (rs ! i)])"
proof -
  from assms have "wf_wiring (wiring (step (rs ! i)))"
    by (simp add: list_all_length)
  with assms(1) show ?thesis
    by (rule list_all_update)
qed

lemma stepRotors_wirings:
  assumes "stepRotors m = Inr m'" and "list_all (\<lambda>r. wf_wiring (wiring r)) (rotors m)"
  shows "list_all (\<lambda>r. wf_wiring (wiring r)) (rotors m')"
proof -
  let ?Q = "list_all (\<lambda>r. wf_wiring (wiring r))"
  let ?rs0 = "rotors m"
  from assms(1) have len: "3 \<le> length ?rs0"
    by (rule stepRotors_frame)
  define rs1 where "rs1 = (if atNotch (?rs0 ! 2) then ?rs0[1 := step (?rs0 ! 1)] else ?rs0)"
  define t where "t = rs1[0 := step (rs1 ! 0)]"
  define rs2 where "rs2 = (if atNotch (?rs0 ! 1) then t[1 := step (t ! 1)] else rs1)"
  define rs3 where "rs3 = rs2[2 := step (rs2 ! 2)]"
  have l1: "length rs1 = length ?rs0" by (simp add: rs1_def)
  have lt: "length t = length ?rs0" by (simp add: t_def l1)
  have l2: "length rs2 = length ?rs0" by (simp add: rs2_def lt l1)
  have q1: "?Q rs1"
    using assms(2) len by (simp add: rs1_def wirings_step)
  have qt: "?Q t"
    unfolding t_def using q1 len l1 by (intro wirings_step) auto
  have q2: "?Q rs2"
    unfolding rs2_def using qt q1 len lt by (simp add: wirings_step)
  have q3: "?Q rs3"
    unfolding rs3_def using q2 len l2 by (intro wirings_step) auto
  from assms(1) len have "rotors m' = rs3"
    by (auto simp: stepRotors_def Let_def rs3_def rs2_def t_def rs1_def)
  with q3 show ?thesis by simp
qed

lemma stepRotors_wf:
  assumes "stepRotors m = Inr m'" and "wf_machine m"
  shows "wf_machine m'"
  using assms stepRotors_frame [OF assms(1)] stepRotors_wirings [OF assms(1)]
  by (simp add: wf_machine_def)

lemma stepRotors_right:
  assumes "stepRotors m = Inr m'"
  shows "position (rotors m' ! 2) = (position (rotors m ! 2) + 1) mod 26"
proof -
  let ?rs0 = "rotors m"
  from assms have len: "3 \<le> length ?rs0"
    by (rule stepRotors_frame)
  define rs1 where "rs1 = (if atNotch (?rs0 ! 2) then ?rs0[1 := step (?rs0 ! 1)] else ?rs0)"
  define t where "t = rs1[0 := step (rs1 ! 0)]"
  define rs2 where "rs2 = (if atNotch (?rs0 ! 1) then t[1 := step (t ! 1)] else rs1)"
  have l2: "length rs2 = length ?rs0"
    by (simp add: rs2_def t_def rs1_def)
  have n2: "rs2 ! 2 = ?rs0 ! 2"
    by (simp add: rs2_def t_def rs1_def)
  from assms len have "rotors m' = rs2[2 := step (rs2 ! 2)]"
    by (auto simp: stepRotors_def Let_def rs2_def t_def rs1_def)
  with l2 len n2 show ?thesis by simp
qed

text \<open>
  The two stepping rules are applied one after the other. With the middle and the right
  rotor both at their notch, the middle rotor is stepped by each of them.
\<close>

lemma stepRotors_both_at_notch:
  assumes "3 \<le> length (rotors m)" and "atNotch (rotors m ! 1)" and "atNotch (rotors m ! 2)"
  shows "\<exists>m'. stepRotors m = Inr m'
           \<and> position (rotors m' ! 0) = (position (rotors m ! 0) + 1) mod 26
           \<and> position (rotors m' ! 1) = (position (rotors m ! 1) + 2) mod 26
           \<and> position (rotors m' ! 2) = (position (rotors m ! 2) + 1) mod 26"
proof -
  from assms(1) have "0 < length (rotors m)" and "1 < length (rotors m)"
    and "2 < length (rotors m)"
    by auto
  moreover have "((p + 1) mod 26 + 1) mod 26 = (p + 2) mod 26" for p :: int
    by presburger
  ultimately show ?thesis
    using assms by (simp add: stepRotors_def Let_def)
qed

subsection \<open>Case mapping\<close>

lemma alphabet_lowercase_disjoint: "set alphabet \<inter> set lowercase = {}"
  by (simp add: alphabet_def lowercase_def)

lemma alphabet_not_lowercase: "c \<in> set alphabet \<Longrightarrow> c \<notin> set lowercase"
  using alphabet_lowercase_disjoint by blast

lemma toUpper_lowercase: "c \<in> set lowercase \<Longrightarrow> toUpper c \<in> set alphabet"
proof -
  assume c: "c \<in> set lowercase"
  have "length lowercase = length alphabet"
    by (simp add: lowercase_def alphabet_def)
  with indexOf_in [OF c] have "nat (indexOf lowercase c) < length alphabet"
    by linarith
  with c show ?thesis
    by (simp add: toUpper_def)
qed

lemma toUpper_other: "c \<notin> set lowercase \<Longrightarrow> toUpper c = c"
  by (simp add: toUpper_def)

lemma toUpper_not_lowercase: "toUpper c \<notin> set lowercase"
proof (cases "c \<in> set lowercase")
  case True
  then show ?thesis
    using toUpper_lowercase alphabet_not_lowercase by blast
next
  case False
  then show ?thesis by (simp add: toUpper_other)
qed

lemma toUpper_idem: "toUpper (toUpper c) = toUpper c"
  using toUpper_not_lowercase [of c] by (rule toUpper_other)

lemma toUpperCase_idem: "toUpperCase (toUpperCase s) = toUpperCase s"
  by (simp add: toUpperCase_def toUpper_idem)

lemma toUpperCase_id: "\<forall>c \<in> set s. c \<notin> set lowercase \<Longrightarrow> toUpperCase s = s"
  by (induction s) (simp_all add: toUpperCase_def toUpper_other)

subsection \<open>One keystroke on a well-formed machine\<close>

lemma encryptChar_reciprocal:
  assumes m: "wf_machine m" and R: "wf_reflector REFLECTOR" and c: "c \<in> set alphabet"
  shows "\<exists>d m'. d \<in> set alphabet \<and> d \<noteq> c \<and> wf_machine m' \<and> stepRotors m = Inr m'
           \<and> encryptChar REFLECTOR m c = Inr (Some d, m')
           \<and> encryptChar REFLECTOR m d = Inr (Some c, m')"
proof -
  from m have "3 \<le> length (rotors m)"
    by (simp add: wf_machine_def)
  then obtain m' where s: "stepRotors m = Inr m'"
    using stepRotors_total by blast
  have m': "wf_machine m'"
    using s m by (rule stepRotors_wf)
  from signal_path_reciprocal [OF m' R c]
  obtain d where d: "d \<in> set alphabet" "d \<noteq> c" "signal_path REFLECTOR m' c = Some d"
      "signal_path REFLECTOR m' d = Some c"
    by blast
  have "encryptChar REFLECTOR m c = Inr (Some d, m')"
    using encryptChar_letter [OF c s] d(3) by simp
  moreover have "encryptChar REFLECTOR m d = Inr (Some c, m')"
    using encryptChar_letter [OF d(1) s] d(4) by simp
  ultimately show ?thesis using d(1,2) m' s by blast
qed

subsection \<open>A whole message\<close>

lemma encryptChars_reciprocal:
  assumes "wf_machine m" and R: "wf_reflector REFLECTOR"
  shows "\<exists>out m1. encryptChars REFLECTOR m s = Inr (out, m1)
           \<and> encryptChars REFLECTOR m out = Inr (s, m1)
           \<and> list_all2 cipher_of s out"
  using assms(1)
proof (induction s arbitrary: m)
  case Nil
  then show ?case by simp
next
  case (Cons c cs)
  show ?case
  proof (cases "c \<in> set alphabet")
    case True
    from encryptChar_reciprocal [OF Cons.prems R True]
    obtain d m' where d: "d \<in> set alphabet" "d \<noteq> c" "wf_machine m'"
        "encryptChar REFLECTOR m c = Inr (Some d, m')"
        "encryptChar REFLECTOR m d = Inr (Some c, m')"
      by blast
    from Cons.IH [OF d(3)] obtain out m1 where
      o: "encryptChars REFLECTOR m' cs = Inr (out, m1)"
         "encryptChars REFLECTOR m' out = Inr (cs, m1)" "list_all2 cipher_of cs out"
      by blast
    have "encryptChars REFLECTOR m (c # cs) = Inr (d # out, m1)"
      using d(4) o(1) by simp
    moreover have "encryptChars REFLECTOR m (d # out) = Inr (c # cs, m1)"
      using d(5) o(2) by simp
    moreover have "list_all2 cipher_of (c # cs) (d # out)"
      using o(3) True d(1,2) by (simp add: cipher_of_def)
    ultimately show ?thesis by blast
  next
    case False
    then have e: "encryptChar REFLECTOR m c = Inr (Some c, m)"
      by (rule encryptChar_other)
    from Cons.IH [OF Cons.prems] obtain out m1 where
      o: "encryptChars REFLECTOR m cs = Inr (out, m1)"
         "encryptChars REFLECTOR m out = Inr (cs, m1)" "list_all2 cipher_of cs out"
      by blast
    have "encryptChars REFLECTOR m (c # cs) = Inr (c # out, m1)"
      using e o(1) by simp
    moreover have "encryptChars REFLECTOR m (c # out) = Inr (c # cs, m1)"
      using e o(2) by simp
    moreover have "list_all2 cipher_of (c # cs) (c # out)"
      using o(3) False by (simp add: cipher_of_def)
    ultimately show ?thesis by blast
  qed
qed

lemma cipher_of_not_lowercase:
  assumes "list_all2 cipher_of s out" and "\<forall>c \<in> set s. c \<notin> set lowercase"
  shows "\<forall>c \<in> set out. c \<notin> set lowercase"
  using assms
proof (induction rule: list_all2_induct)
  case Nil
  then show ?case by simp
next
  case (Cons a as b bs)
  then have "b \<notin> set lowercase"
    using alphabet_not_lowercase [of b] by (auto simp: cipher_of_def split: if_splits)
  with Cons show ?case by simp
qed

lemma process_reciprocal:
  assumes m: "wf_machine m" and R: "wf_reflector REFLECTOR"
  shows "\<exists>out m1. process REFLECTOR m s = Inr (out, m1)
           \<and> process REFLECTOR m out = Inr (toUpperCase s, m1)
           \<and> list_all2 cipher_of (toUpperCase s) out"
proof -
  from encryptChars_reciprocal [OF m R, of "toUpperCase s"]
  obtain out m1 where o: "encryptChars REFLECTOR m (toUpperCase s) = Inr (out, m1)"
      "encryptChars REFLECTOR m out = Inr (toUpperCase s, m1)"
      "list_all2 cipher_of (toUpperCase s) out"
    by blast
  have "\<forall>c \<in> set (toUpperCase s). c \<notin> set lowercase"
    by (simp add: toUpperCase_def toUpper_not_lowercase)
  with o(3) have "\<forall>c \<in> set out. c \<notin> set lowercase"
    by (rule cipher_of_not_lowercase)
  then have "toUpperCase out = out"
    by (rule toUpperCase_id)
  with o show ?thesis
    by (simp add: process_def)
qed

subsection \<open>Construction\<close>

lemma Enigma_wf:
  assumes cat: "wf_catalogue ROTORS" and lp: "letter_pairs pairs"
    and E: "Enigma ROTORS rotorIDs rotorPositions ringSettings pairs = Inr m"
  shows "wf_machine m"
proof -
  from E have ok: "3 \<le> length rotorIDs" "list_all (\<lambda>k. k < length ROTORS) rotorIDs"
      "disjoint_pairs pairs"
    by (auto simp: Enigma_def split: if_splits)
  from E have rs: "rotors m =
      map (\<lambda>i. Rotor (fst (ROTORS ! (rotorIDs ! i))) (snd (ROTORS ! (rotorIDs ! i)))
                  (ringSettings ! i) (rotorPositions ! i))
          [0..<length rotorIDs]"
    and pp: "plugboardPairs m = pairs"
    by (auto simp: Enigma_def split: if_splits)
  have "wf_wiring (fst (ROTORS ! (rotorIDs ! i)))" if "i < length rotorIDs" for i
    using that ok(2) cat by (simp add: wf_catalogue_def list_all_length)
  then have "list_all (\<lambda>r. wf_wiring (wiring r)) (rotors m)"
    by (simp add: rs list_all_iff Rotor_def)
  with ok lp show ?thesis
    by (simp add: wf_machine_def rs pp)
qed

subsection \<open>Invariants of a run\<close>

lemma encryptChar_wf:
  assumes "wf_machine m" and "encryptChar REFLECTOR m c = Inr (v, m')"
  shows "wf_machine m'"
proof (cases "c \<in> set alphabet")
  case True
  from assms(1) have "3 \<le> length (rotors m)"
    by (simp add: wf_machine_def)
  then obtain m1 where s: "stepRotors m = Inr m1"
    using stepRotors_total by blast
  with assms(2) True have "m' = m1"
    by (simp add: encryptChar_letter)
  with s assms(1) show ?thesis
    using stepRotors_wf by blast
next
  case False
  with assms show ?thesis
    by (simp add: encryptChar_other)
qed

lemma encryptChars_wf:
  "wf_machine m \<Longrightarrow> encryptChars REFLECTOR m s = Inr (out, m1) \<Longrightarrow> wf_machine m1"
proof (induction s arbitrary: m out)
  case Nil
  then show ?case by simp
next
  case (Cons c cs)
  from Cons.prems(2) obtain v m' out' where
    e: "encryptChar REFLECTOR m c = Inr (v, m')" and
    r: "encryptChars REFLECTOR m' cs = Inr (out', m1)"
    by (auto split: sum.splits prod.splits)
  from Cons.prems(1) e have "wf_machine m'"
    by (rule encryptChar_wf)
  then show ?case using r by (rule Cons.IH)
qed

lemma disjoint_pairsD:
  assumes "disjoint_pairs pairs" and "i < j" and "j < length pairs"
  shows "{fst (pairs ! i), snd (pairs ! i)} \<inter> {fst (pairs ! j), snd (pairs ! j)} = {}"
  using assms
proof (induction pairs arbitrary: i j)
  case Nil
  then show ?case by simp
next
  case (Cons p pairs)
  obtain a b where p: "p = (a, b)" by (cases p)
  from Cons.prems obtain k where j: "j = Suc k" and k: "k < length pairs"
    by (cases j) auto
  from Cons.prems(1) p
  have fresh: "list_all (\<lambda>(x, y). a \<noteq> x \<and> a \<noteq> y \<and> b \<noteq> x \<and> b \<noteq> y) pairs"
    and dis: "disjoint_pairs pairs"
    by simp_all
  show ?case
  proof (cases i)
    case 0
    from fresh k have "case pairs ! k of (x, y) \<Rightarrow> a \<noteq> x \<and> a \<noteq> y \<and> b \<noteq> x \<and> b \<noteq> y"
      by (simp add: list_all_length)
    with 0 j p show ?thesis
      by (cases "pairs ! k") auto
  next
    case (Suc i')
    with Cons.prems j have "i' < k" by simp
    from Cons.IH [OF dis this k] Suc j show ?thesis by simp
  qed
qed

lemma stepRotors_cases:
  assumes "3 \<le> length (rotors m)"
  shows "stepRotors m =
     Inr (m\<lparr>rotors :=
       (let rs0 = rotors m;
            rs1 = (if atNotch (rs0 ! 2) then rs0[1 := step (rs0 ! 1)] else rs0);
            rs2 = (if atNotch (rs0 ! 1)
                   then (let t = rs1[0 := step (rs1 ! 0)] in t[1 := step (t ! 1)])
                   else rs1)
        in rs2[2 := step (rs2 ! 2)])\<rparr>)"
  using assms by (simp add: stepRotors_def Let_def)


section \<open>The claims\<close>

subsection \<open>Round trip\<close>

text \<open>
  Claim C1, as the code has it. For every valid configuration --- rotors chosen from a
  catalogue of permutation wirings, positions and ring settings within 0 to 25, disjoint
  plugboard pairs of letters --- and every message \<open>M\<close>: a machine freshly constructed
  from the configuration encrypts \<open>M\<close>, and a second machine freshly constructed from
  the same configuration turns the ciphertext into the uppercased message. Both machines
  end in the same state. The result is \<open>M\<close> itself when \<open>M\<close> has no lowercase letter.
\<close>

theorem roundtrip_yields_uppercase:
  assumes "wf_catalogue ROTORS" and "wf_reflector REFLECTOR" and "letter_pairs pairs"
    and "Enigma ROTORS rotorIDs rotorPositions ringSettings pairs = Inr sender"
    and "Enigma ROTORS rotorIDs rotorPositions ringSettings pairs = Inr receiver"
  shows "\<exists>C m1. process REFLECTOR sender M = Inr (C, m1)
           \<and> process REFLECTOR receiver C = Inr (toUpperCase M, m1)
           \<and> ((\<forall>c \<in> set M. c \<notin> set lowercase) \<longrightarrow> toUpperCase M = M)"
proof -
  from assms(4,5) have eq: "receiver = sender" by simp
  have "wf_machine sender"
    using assms(1,3,4) by (rule Enigma_wf)
  from process_reciprocal [OF this assms(2), of M] show ?thesis
    unfolding eq using toUpperCase_id [of M] by blast
qed

text \<open>The round trip on the historical tables, with two plugboard pairs.\<close>

theorem roundtrip_yields_uppercase_witness:
  "wf_catalogue ROTORS_I_II_III \<and> wf_reflector REFLECTOR_B
   \<and> letter_pairs [(CHR ''A'', CHR ''B''), (CHR ''C'', CHR ''D'')]
   \<and> Enigma ROTORS_I_II_III [0, 1, 2] [0, 0, 0] [0, 0, 0]
        [(CHR ''A'', CHR ''B''), (CHR ''C'', CHR ''D'')] = Inr machine_plugged
   \<and> (\<exists>C m1. process REFLECTOR_B machine_plugged ''Ab c!d'' = Inr (C, m1)
          \<and> process REFLECTOR_B machine_plugged C = Inr (''AB C!D'', m1))"
proof -
  have h1: "wf_catalogue ROTORS_I_II_III" by code_simp
  have h2: "wf_reflector REFLECTOR_B" by code_simp
  have h3: "letter_pairs [(CHR ''A'', CHR ''B''), (CHR ''C'', CHR ''D'')]" by code_simp
  have h4: "Enigma ROTORS_I_II_III [0, 1, 2] [0, 0, 0] [0, 0, 0]
              [(CHR ''A'', CHR ''B''), (CHR ''C'', CHR ''D'')] = Inr machine_plugged"
    by code_simp
  have u: "toUpperCase ''Ab c!d'' = ''AB C!D''" by code_simp
  from roundtrip_yields_uppercase [OF h1 h2 h3 h4 h4, of "''Ab c!d''"] h1 h2 h3 h4
  show ?thesis unfolding u by blast
qed

text \<open>
  Claim C1 as stated, that the round trip gives the message itself, fails on a message
  with a lowercase letter: \<open>a\<close> is encrypted as \<open>A\<close> is, to \<open>B\<close>, and \<open>B\<close> comes
  back as \<open>A\<close>.
\<close>

theorem roundtrip_lowercase_counterexample:
  "Enigma ROTORS_I_II_III [0, 1, 2] [0, 0, 0] [0, 0, 0] [] = Inr machine_AAA
   \<and> map_sum id fst (process REFLECTOR_B machine_AAA ''a'') = Inr ''B''
   \<and> map_sum id fst (process REFLECTOR_B machine_AAA ''B'') = Inr ''A''
   \<and> ''A'' \<noteq> ''a''"
  by code_simp

subsection \<open>Double stepping\<close>

text \<open>
  Claim C2, as the code has it. Whenever the middle rotor sits at its notch before any
  stepping of the keystroke and the right rotor does not sit at its notch, one call of
  the stepping algorithm advances the left, the middle and the right rotor each by
  exactly 1 modulo 26. The notch state of the middle rotor is the one of the machine
  before the call.
\<close>

theorem double_stepping_right_off_notch:
  assumes "3 \<le> length (rotors m)" and "atNotch (rotors m ! 1)" and "\<not> atNotch (rotors m ! 2)"
  shows "\<exists>m'. stepRotors m = Inr m'
           \<and> position (rotors m' ! 0) = (position (rotors m ! 0) + 1) mod 26
           \<and> position (rotors m' ! 1) = (position (rotors m ! 1) + 1) mod 26
           \<and> position (rotors m' ! 2) = (position (rotors m ! 2) + 1) mod 26"
proof -
  from assms(1) have "0 < length (rotors m)" and "1 < length (rotors m)"
    and "2 < length (rotors m)"
    by auto
  with assms show ?thesis
    by (simp add: stepRotors_cases Let_def)
qed

text \<open>The turnover test of the test suite: positions 0, 4, 4 become 1, 5, 5.\<close>

theorem double_stepping_right_off_notch_witness:
  "3 \<le> length (rotors machine_turnover) \<and> atNotch (rotors machine_turnover ! 1)
   \<and> \<not> atNotch (rotors machine_turnover ! 2)
   \<and> map position (rotors machine_turnover) = [0, 4, 4]
   \<and> (\<exists>m'. stepRotors machine_turnover = Inr m'
          \<and> position (rotors m' ! 0) = 1 \<and> position (rotors m' ! 1) = 5
          \<and> position (rotors m' ! 2) = 5)"
proof -
  have h1: "3 \<le> length (rotors machine_turnover)" by code_simp
  have h2: "atNotch (rotors machine_turnover ! 1)" by code_simp
  have h3: "\<not> atNotch (rotors machine_turnover ! 2)" by code_simp
  have p: "map position (rotors machine_turnover) = [0, 4, 4]" by code_simp
  then have "position (rotors machine_turnover ! 0) = 0"
    "position (rotors machine_turnover ! 1) = 4" "position (rotors machine_turnover ! 2) = 4"
    using h1 by (simp_all add: list_eq_iff_nth_eq)
  with double_stepping_right_off_notch [OF h1 h2 h3] h1 h2 h3 p show ?thesis
    by simp
qed

text \<open>
  Claim C2 as stated, for every machine whose middle rotor sits at its notch, fails when
  the right rotor sits at its notch too: the two stepping rules both fire, and the middle
  rotor advances by 2. With rotors I, II, II at positions 0, 4, 4 one call gives 1, 6, 5.
\<close>

theorem double_stepping_both_at_notch_counterexample:
  "Enigma ROTORS_I_II_III [0, 1, 1] [0, 4, 4] [0, 0, 0] [] = Inr machine_notches
   \<and> atNotch (rotors machine_notches ! 1)
   \<and> map position (rotors machine_notches) = [0, 4, 4]
   \<and> map_sum id (map position \<circ> rotors) (stepRotors machine_notches) = Inr [1, 6, 5]
   \<and> (6 :: int) \<noteq> (4 + 1) mod 26"
  by code_simp

subsection \<open>No fixed points\<close>

text \<open>
  Claim C3. For every valid configuration, every state \<open>m\<close> that the constructed
  machine reaches by encrypting some earlier characters \<open>prior\<close>, and every uppercase
  letter \<open>L\<close>: \<open>encryptChar\<close> returns a letter of the alphabet, and never \<open>L\<close>.
\<close>

theorem no_fixed_points:
  assumes "wf_catalogue ROTORS" and "wf_reflector REFLECTOR" and "letter_pairs pairs"
    and "Enigma ROTORS rotorIDs rotorPositions ringSettings pairs = Inr m0"
    and "encryptChars REFLECTOR m0 prior = Inr (out, m)"
    and "L \<in> set alphabet"
  shows "\<exists>d m'. encryptChar REFLECTOR m L = Inr (Some d, m') \<and> d \<in> set alphabet \<and> d \<noteq> L"
proof -
  have "wf_machine m0"
    using assms(1,3,4) by (rule Enigma_wf)
  then have "wf_machine m"
    using assms(5) by (rule encryptChars_wf)
  from encryptChar_reciprocal [OF this assms(2,6)] show ?thesis
    by blast
qed

text \<open>After two keystrokes on the machine with two plugboard pairs.\<close>

theorem no_fixed_points_witness:
  "wf_catalogue ROTORS_I_II_III \<and> wf_reflector REFLECTOR_B
   \<and> letter_pairs [(CHR ''A'', CHR ''B''), (CHR ''C'', CHR ''D'')]
   \<and> Enigma ROTORS_I_II_III [0, 1, 2] [0, 0, 0] [0, 0, 0]
        [(CHR ''A'', CHR ''B''), (CHR ''C'', CHR ''D'')] = Inr machine_plugged
   \<and> encryptChars REFLECTOR_B machine_plugged ''AB'' = Inr (''BC'', machine_plugged_2)
   \<and> CHR ''A'' \<in> set alphabet
   \<and> (\<exists>d m'. encryptChar REFLECTOR_B machine_plugged_2 (CHR ''A'') = Inr (Some d, m')
          \<and> d \<in> set alphabet \<and> d \<noteq> CHR ''A'')"
proof -
  have h1: "wf_catalogue ROTORS_I_II_III" by code_simp
  have h2: "wf_reflector REFLECTOR_B" by code_simp
  have h3: "letter_pairs [(CHR ''A'', CHR ''B''), (CHR ''C'', CHR ''D'')]" by code_simp
  have h4: "Enigma ROTORS_I_II_III [0, 1, 2] [0, 0, 0] [0, 0, 0]
              [(CHR ''A'', CHR ''B''), (CHR ''C'', CHR ''D'')] = Inr machine_plugged"
    by code_simp
  have h5: "encryptChars REFLECTOR_B machine_plugged ''AB'' = Inr (''BC'', machine_plugged_2)"
    by code_simp
  have h6: "CHR ''A'' \<in> set alphabet" by code_simp
  from no_fixed_points [OF h1 h2 h3 h4 h5 h6] h1 h2 h3 h4 h5 h6 show ?thesis
    by blast
qed

subsection \<open>Rotor round trip\<close>

text \<open>
  Claim C4. For a rotor with any ring setting and any position, in particular those
  within 0 to 25, and every uppercase letter \<open>L\<close>: \<open>forward\<close> gives a letter, and
  \<open>backward\<close> maps it back to \<open>L\<close>. Both are functions of the rotor value alone and
  return nothing but the letter.
\<close>

theorem rotor_round_trip:
  assumes "wf_wiring w" and "L \<in> set alphabet"
  shows "\<exists>d. forward (Rotor w n r p) L = Some d \<and> backward (Rotor w n r p) d = Some L"
proof -
  have "wf_wiring (wiring (Rotor w n r p))"
    using assms(1) by (simp add: Rotor_def)
  from forward_backward_step [OF this assms(2)] show ?thesis by blast
qed

text \<open>Rotor I with ring setting 25 at position 7.\<close>

theorem rotor_round_trip_witness:
  "wf_wiring ''EKMFLGDQVZNTOWYHXUSPAIBRCJ'' \<and> CHR ''H'' \<in> set alphabet
   \<and> (\<exists>d. forward (Rotor ''EKMFLGDQVZNTOWYHXUSPAIBRCJ'' (CHR ''Q'') 25 7) (CHR ''H'') = Some d
          \<and> backward (Rotor ''EKMFLGDQVZNTOWYHXUSPAIBRCJ'' (CHR ''Q'') 25 7) d = Some (CHR ''H''))"
proof -
  have h1: "wf_wiring ''EKMFLGDQVZNTOWYHXUSPAIBRCJ''" by code_simp
  have h2: "CHR ''H'' \<in> set alphabet" by code_simp
  from rotor_round_trip [OF h1 h2] h1 h2 show ?thesis by blast
qed

subsection \<open>Plugboard involution\<close>

text \<open>
  Claim C5. For every list of disjoint pairs and every letter \<open>L\<close>, swapping twice
  gives \<open>L\<close>; with the empty list the swap gives \<open>L\<close>; and a letter that is in no
  pair maps to itself.
\<close>

theorem plugboard_involution:
  assumes "disjoint_pairs pairs"
  shows "plugboardSwap (plugboardSwap L pairs) pairs = L
         \<and> plugboardSwap L [] = L
         \<and> (list_all (\<lambda>(a, b). L \<noteq> a \<and> L \<noteq> b) pairs \<longrightarrow> plugboardSwap L pairs = L)"
  using plugboardSwap_involution [OF assms] plugboardSwap_fresh by simp

text \<open>The pairs of the plugboard test.\<close>

theorem plugboard_involution_witness:
  "disjoint_pairs [(CHR ''A'', CHR ''B''), (CHR ''C'', CHR ''D'')]
   \<and> plugboardSwap (CHR ''D'') [(CHR ''A'', CHR ''B''), (CHR ''C'', CHR ''D'')] = CHR ''C''
   \<and> plugboardSwap (plugboardSwap (CHR ''D'') [(CHR ''A'', CHR ''B''), (CHR ''C'', CHR ''D'')])
        [(CHR ''A'', CHR ''B''), (CHR ''C'', CHR ''D'')] = CHR ''D''"
proof -
  have h: "disjoint_pairs [(CHR ''A'', CHR ''B''), (CHR ''C'', CHR ''D'')]" by code_simp
  have v: "plugboardSwap (CHR ''D'') [(CHR ''A'', CHR ''B''), (CHR ''C'', CHR ''D'')] = CHR ''C''"
    by code_simp
  from plugboard_involution [OF h, of "CHR ''D''"] h v show ?thesis by blast
qed

subsection \<open>Characters outside the alphabet\<close>

text \<open>
  Claim C6. For every character outside the 26 uppercase letters, \<open>encryptChar\<close>
  returns the character and the machine exactly as it was. On a well-formed machine
  \<open>process\<close> gives an output as long as its input, and a character of the input that
  is not a letter, uppercase or lowercase, stands unchanged at its place in the output.
\<close>

theorem non_alphabetic_passthrough:
  "(c \<notin> set alphabet \<longrightarrow> encryptChar REFLECTOR m c = Inr (Some c, m))
   \<and> (wf_machine m \<and> wf_reflector REFLECTOR \<and> i < length s
        \<and> s ! i \<notin> set alphabet \<and> s ! i \<notin> set lowercase
      \<longrightarrow> (\<exists>out m'. process REFLECTOR m s = Inr (out, m')
             \<and> length out = length s \<and> out ! i = s ! i))"
proof (intro conjI impI)
  assume "c \<notin> set alphabet"
  then show "encryptChar REFLECTOR m c = Inr (Some c, m)"
    by (rule encryptChar_other)
next
  assume a: "wf_machine m \<and> wf_reflector REFLECTOR \<and> i < length s
        \<and> s ! i \<notin> set alphabet \<and> s ! i \<notin> set lowercase"
  then obtain out m' where p: "process REFLECTOR m s = Inr (out, m')"
    and l: "list_all2 cipher_of (toUpperCase s) out"
    using process_reciprocal [of m REFLECTOR s] by blast
  from l have len: "length out = length s"
    by (simp add: list_all2_lengthD [symmetric] toUpperCase_def)
  from a have u: "toUpperCase s ! i = s ! i"
    by (simp add: toUpperCase_def toUpper_other)
  from a l have "cipher_of (toUpperCase s ! i) (out ! i)"
    by (simp add: list_all2_conv_all_nth toUpperCase_def)
  with a u have "out ! i = s ! i"
    by (simp add: cipher_of_def)
  with p len show "\<exists>out m'. process REFLECTOR m s = Inr (out, m')
      \<and> length out = length s \<and> out ! i = s ! i"
    by blast
qed

text \<open>The digit \<open>1\<close>, and the space of \<open>HELLO 123!\<close>.\<close>

theorem non_alphabetic_passthrough_witness:
  "CHR ''1'' \<notin> set alphabet
   \<and> encryptChar REFLECTOR_B machine_AAA (CHR ''1'') = Inr (Some (CHR ''1''), machine_AAA)
   \<and> wf_machine machine_AAA \<and> wf_reflector REFLECTOR_B \<and> 5 < length ''HELLO 123!''
   \<and> ''HELLO 123!'' ! 5 \<notin> set alphabet \<and> ''HELLO 123!'' ! 5 \<notin> set lowercase
   \<and> (\<exists>out m'. process REFLECTOR_B machine_AAA ''HELLO 123!'' = Inr (out, m')
          \<and> length out = length ''HELLO 123!'' \<and> out ! 5 = ''HELLO 123!'' ! 5)"
proof -
  have h1: "CHR ''1'' \<notin> set alphabet" by code_simp
  have h2: "wf_machine machine_AAA" by code_simp
  have h3: "wf_reflector REFLECTOR_B" by code_simp
  have h4: "5 < length ''HELLO 123!''" by simp
  have h5: "''HELLO 123!'' ! 5 \<notin> set alphabet" by code_simp
  have h6: "''HELLO 123!'' ! 5 \<notin> set lowercase" by code_simp
  from non_alphabetic_passthrough
         [where c = "CHR ''1''" and REFLECTOR = REFLECTOR_B and m = machine_AAA
            and i = 5 and s = "''HELLO 123!''"]
       h1 h2 h3 h4 h5 h6
  show ?thesis by blast
qed

subsection \<open>Construction\<close>

text \<open>
  Claim C7. Construction with fewer than three rotors, with a position or a ring setting
  outside 0 to 25, or with a letter that appears in two plugboard pairs gives a
  configuration error and no machine.
\<close>

theorem construction_fails_fast:
  assumes "length rotorIDs < 3
           \<or> (\<exists>p. p \<in> set rotorPositions \<and> (p < 0 \<or> 25 < p))
           \<or> (\<exists>r. r \<in> set ringSettings \<and> (r < 0 \<or> 25 < r))
           \<or> (\<exists>i j. i < j \<and> j < length pairs
                 \<and> {fst (pairs ! i), snd (pairs ! i)} \<inter> {fst (pairs ! j), snd (pairs ! j)} \<noteq> {})"
  shows "Enigma ROTORS rotorIDs rotorPositions ringSettings pairs = Inl ConfigurationError"
proof -
  from assms consider
      (few) "length rotorIDs < 3"
    | (pos) p where "p \<in> set rotorPositions" "p < 0 \<or> 25 < p"
    | (ring) r where "r \<in> set ringSettings" "r < 0 \<or> 25 < r"
    | (plug) i j where "i < j" "j < length pairs"
        "{fst (pairs ! i), snd (pairs ! i)} \<inter> {fst (pairs ! j), snd (pairs ! j)} \<noteq> {}"
    by blast
  then show ?thesis
  proof cases
    case few
    then show ?thesis by (simp add: Enigma_def)
  next
    case pos
    then have "\<not> in_range p"
      by (auto simp: in_range_def)
    with pos(1) have "\<not> list_all in_range rotorPositions"
      unfolding list_all_iff by blast
    then show ?thesis by (simp add: Enigma_def)
  next
    case ring
    then have "\<not> in_range r"
      by (auto simp: in_range_def)
    with ring(1) have "\<not> list_all in_range ringSettings"
      unfolding list_all_iff by blast
    then show ?thesis by (simp add: Enigma_def)
  next
    case plug
    then have "\<not> disjoint_pairs pairs"
      using disjoint_pairsD [of pairs i j] by blast
    then show ?thesis by (simp add: Enigma_def)
  qed
qed

text \<open>One malformed configuration of each kind.\<close>

theorem construction_fails_fast_witness:
  "Enigma ROTORS_I_II_III [0, 1] [0, 0, 0] [0, 0, 0] [] = Inl ConfigurationError
   \<and> Enigma ROTORS_I_II_III [0, 1, 2] [0, 26, 0] [0, 0, 0] [] = Inl ConfigurationError
   \<and> Enigma ROTORS_I_II_III [0, 1, 2] [0, 0, 0] [0, 0, - 1] [] = Inl ConfigurationError
   \<and> Enigma ROTORS_I_II_III [0, 1, 2] [0, 0, 0] [0, 0, 0]
        [(CHR ''A'', CHR ''B''), (CHR ''B'', CHR ''C'')] = Inl ConfigurationError"
proof -
  have h1: "length [0, 1 :: nat] < 3" by simp
  have "(26 :: int) \<in> set [0, 26, 0] \<and> ((26 :: int) < 0 \<or> 25 < (26 :: int))" by simp
  then have h2: "\<exists>p. p \<in> set [0, 26, 0 :: int] \<and> (p < 0 \<or> 25 < p)" by blast
  have "(- 1 :: int) \<in> set [0, 0, - 1] \<and> ((- 1 :: int) < 0 \<or> 25 < (- 1 :: int))" by simp
  then have h3: "\<exists>r. r \<in> set [0, 0, - 1 :: int] \<and> (r < 0 \<or> 25 < r)" by blast
  let ?P = "[(CHR ''A'', CHR ''B''), (CHR ''B'', CHR ''C'')]"
  have "(0 :: nat) < 1 \<and> 1 < length ?P
      \<and> {fst (?P ! 0), snd (?P ! 0)} \<inter> {fst (?P ! 1), snd (?P ! 1)} \<noteq> {}"
    by simp
  then have h4: "\<exists>i j. i < j \<and> j < length ?P
      \<and> {fst (?P ! i), snd (?P ! i)} \<inter> {fst (?P ! j), snd (?P ! j)} \<noteq> {}"
    by blast
  show ?thesis
    using construction_fails_fast [of "[0, 1]", OF disjI1, OF h1]
      construction_fails_fast [of _ "[0, 26, 0]", OF disjI2, OF disjI1, OF h2]
      construction_fails_fast [of _ _ "[0, 0, - 1]", OF disjI2, OF disjI2, OF disjI1, OF h3]
      construction_fails_fast [of _ _ _ ?P, OF disjI2, OF disjI2, OF disjI2, OF h4]
    by simp
qed

subsection \<open>Case handling\<close>

text \<open>
  Claim C8. For every string \<open>s\<close>, \<open>process\<close> of the uppercased \<open>s\<close> is \<open>process\<close>
  of \<open>s\<close>; and on a well-formed machine \<open>process\<close> returns an output as long as
  \<open>s\<close>, no character of which is a lowercase letter: every letter of it is uppercase.
\<close>

theorem process_case_handling:
  "process REFLECTOR m (toUpperCase s) = process REFLECTOR m s
   \<and> (wf_machine m \<and> wf_reflector REFLECTOR
      \<longrightarrow> (\<exists>out m'. process REFLECTOR m s = Inr (out, m')
             \<and> length out = length s \<and> (\<forall>c \<in> set out. c \<notin> set lowercase)))"
proof (intro conjI impI)
  show "process REFLECTOR m (toUpperCase s) = process REFLECTOR m s"
    by (simp add: process_def toUpperCase_idem)
next
  assume "wf_machine m \<and> wf_reflector REFLECTOR"
  then obtain out m' where p: "process REFLECTOR m s = Inr (out, m')"
    and l: "list_all2 cipher_of (toUpperCase s) out"
    using process_reciprocal [of m REFLECTOR s] by blast
  have "\<forall>c \<in> set (toUpperCase s). c \<notin> set lowercase"
    by (simp add: toUpperCase_def toUpper_not_lowercase)
  with l have "\<forall>c \<in> set out. c \<notin> set lowercase"
    by (rule cipher_of_not_lowercase)
  moreover from l have "length out = length s"
    by (simp add: list_all2_lengthD [symmetric] toUpperCase_def)
  ultimately show "\<exists>out m'. process REFLECTOR m s = Inr (out, m')
      \<and> length out = length s \<and> (\<forall>c \<in> set out. c \<notin> set lowercase)"
    using p by blast
qed

text \<open>A mixed-case message on the machine with two plugboard pairs.\<close>

theorem process_case_handling_witness:
  "process REFLECTOR_B machine_plugged (toUpperCase ''Hello, World'')
     = process REFLECTOR_B machine_plugged ''Hello, World''
   \<and> wf_machine machine_plugged \<and> wf_reflector REFLECTOR_B
   \<and> (\<exists>out m'. process REFLECTOR_B machine_plugged ''Hello, World'' = Inr (out, m')
          \<and> length out = length ''Hello, World''
          \<and> list_all (\<lambda>c. c \<notin> set lowercase) out)"
proof -
  have h1: "wf_machine machine_plugged" by code_simp
  have h2: "wf_reflector REFLECTOR_B" by code_simp
  from process_case_handling [of REFLECTOR_B machine_plugged "''Hello, World''"] h1 h2
  show ?thesis unfolding list_all_iff by blast
qed

subsection \<open>The right rotor\<close>

text \<open>
  Claim C9. On a machine of three rotors and for every uppercase letter, one call of
  \<open>encryptChar\<close> returns and leaves the right rotor at its previous position plus 1
  modulo 26; and \<open>step\<close> changes nothing of a rotor but its position, which becomes
  the position plus 1 modulo 26.
\<close>

theorem right_rotor_always_steps:
  assumes "length (rotors m) = 3" and "c \<in> set alphabet"
  shows "(\<exists>v m'. encryptChar REFLECTOR m c = Inr (v, m')
            \<and> position (rotors m' ! 2) = (position (rotors m ! 2) + 1) mod 26)
         \<and> step r = r\<lparr>position := (position r + 1) mod 26\<rparr>"
proof -
  from assms(1) obtain m' where s: "stepRotors m = Inr m'"
    using stepRotors_total [of m] by auto
  from encryptChar_letter [OF assms(2) s] stepRotors_right [OF s] show ?thesis
    by (simp add: step_def)
qed

text \<open>The first keystroke of a machine at positions 0, 0, 0.\<close>

theorem right_rotor_always_steps_witness:
  "length (rotors machine_AAA) = 3 \<and> CHR ''A'' \<in> set alphabet
   \<and> position (rotors machine_AAA ! 2) = 0
   \<and> (\<exists>v m'. encryptChar REFLECTOR_B machine_AAA (CHR ''A'') = Inr (v, m')
          \<and> position (rotors m' ! 2) = 1)"
proof -
  have h1: "length (rotors machine_AAA) = 3" by code_simp
  have h2: "CHR ''A'' \<in> set alphabet" by code_simp
  have p: "position (rotors machine_AAA ! 2) = 0" by code_simp
  from right_rotor_always_steps [OF h1 h2, of REFLECTOR_B] h1 h2 p show ?thesis
    by simp
qed

subsection \<open>Lowercase letters\<close>

text \<open>
  Claim C10. A lowercase letter is not in the alphabet, so \<open>encryptChar\<close> returns it
  unchanged and leaves the machine as it was: no rotor moves, nothing is encrypted,
  nothing is uppercased.
\<close>

theorem lowercase_not_encrypted:
  assumes "c \<in> set lowercase"
  shows "c \<notin> set alphabet \<and> encryptChar REFLECTOR m c = Inr (Some c, m)"
proof -
  from assms have "c \<notin> set alphabet"
    using alphabet_not_lowercase by blast
  then show ?thesis
    using encryptChar_other by blast
qed

text \<open>The letter \<open>h\<close>: unchanged by \<open>encryptChar\<close>, encrypted as \<open>H\<close> by \<open>process\<close>.\<close>

theorem lowercase_not_encrypted_witness:
  "CHR ''h'' \<in> set lowercase
   \<and> encryptChar REFLECTOR_B machine_AAA (CHR ''h'') = Inr (Some (CHR ''h''), machine_AAA)
   \<and> map_sum id fst (process REFLECTOR_B machine_AAA ''h'') = Inr ''I''"
proof -
  have h: "CHR ''h'' \<in> set lowercase" by code_simp
  have p: "map_sum id fst (process REFLECTOR_B machine_AAA ''h'') = Inr ''I''" by code_simp
  from lowercase_not_encrypted [OF h, of REFLECTOR_B machine_AAA] h p show ?thesis
    by simp
qed

end
